theory Spec2Isabelle
  imports Main
begin

section \<open>The class-block extractor of \<open>scripts/03_build_cases_from_repo.py\<close>\<close>

text \<open>
  A shallow embedding of \<open>extract_class_block\<close> and of the record that \<open>main\<close> emits
  for each row. A Python \<open>str\<close> is modelled as a \<open>string\<close>: a list of characters with
  code points 0 to 255. \<open>read_text\<close> decodes as UTF-8 first and as \<open>latin-1\<close> otherwise, so
  a text can hold code points above 255; such a text is outside the model. Python
  integers are \<open>int\<close>. Every operation of the source that can raise returns a value of
  \<open>py_error + 'a\<close>, with \<open>Inl\<close> for the exception.
\<close>

subsection \<open>Python primitives: indexing, slicing, join, split, splitlines\<close>

datatype py_error = IndexError

text \<open>\<open>xs[i]\<close>: an index from \<open>-len\<close> to \<open>-1\<close> is taken from the end; any index
  outside \<open>-len..len-1\<close> raises.\<close>

definition py_get :: "'a list \<Rightarrow> int \<Rightarrow> py_error + 'a" where
  "py_get xs i =
     (if 0 \<le> i \<and> i < int (length xs) then Inr (xs ! nat i)
      else if i < 0 \<and> - int (length xs) \<le> i then Inr (xs ! nat (int (length xs) + i))
      else Inl IndexError)"

text \<open>One bound of a slice, as Python normalises it: a negative bound counts from the
  end, and the result is clamped to \<open>0..len\<close>.\<close>

definition slice_bound :: "nat \<Rightarrow> int \<Rightarrow> nat" where
  "slice_bound n i = (if i < 0 then nat (max 0 (int n + i)) else min (nat i) n)"

text \<open>\<open>xs[lo:hi]\<close> and \<open>xs[:hi]\<close>.\<close>

definition py_slice :: "'a list \<Rightarrow> int \<Rightarrow> int \<Rightarrow> 'a list" where
  "py_slice xs lo hi =
     (let a = slice_bound (length xs) lo; b = slice_bound (length xs) hi
      in take (b - a) (drop a xs))"

definition py_slice_to :: "'a list \<Rightarrow> int \<Rightarrow> 'a list" where
  "py_slice_to xs hi = take (slice_bound (length xs) hi) xs"

text \<open>\<open>"\n".join(ls)\<close>.\<close>

fun join_lines :: "string list \<Rightarrow> string" where
  "join_lines [] = []"
| "join_lines [l] = l"
| "join_lines (l # m # ls) = l @ CHR 0x0A # join_lines (m # ls)"

text \<open>\<open>s.split(".")\<close>: the segments between the dots; always at least one segment.\<close>

fun split_dot :: "string \<Rightarrow> string list" where
  "split_dot [] = [[]]"
| "split_dot (c # cs) =
     (if c = CHR ''.'' then [] # split_dot cs
      else (case split_dot cs of
              [] \<Rightarrow> [[c]]
            | seg # segs \<Rightarrow> (c # seg) # segs))"

text \<open>The line boundaries of \<open>str.splitlines\<close> among the code points 0 to 255:
  LF, VT, FF, CR, FS, GS, RS and NEL; CR LF counts as one boundary.\<close>

definition is_line_break :: "char \<Rightarrow> bool" where
  "is_line_break c \<longleftrightarrow>
     c \<in> {CHR 0x0A, CHR 0x0B, CHR 0x0C, CHR 0x0D, CHR 0x1C, CHR 0x1D, CHR 0x1E, CHR 0x85}"

definition skip_lf :: "char \<Rightarrow> string \<Rightarrow> string" where
  "skip_lf c cs =
     (case cs of
        [] \<Rightarrow> cs
      | d # ds \<Rightarrow> if c = CHR 0x0D \<and> d = CHR 0x0A then ds else cs)"

text \<open>\<open>text.splitlines()\<close>: the lines without their terminators; a final terminator
  does not open a further line.\<close>

function splitlines :: "string \<Rightarrow> string list" where
  "splitlines [] = []"
| "splitlines (c # cs) =
     (if is_line_break c then [] # splitlines (skip_lf c cs)
      else (case splitlines cs of
              [] \<Rightarrow> [[c]]
            | l # ls \<Rightarrow> (c # l) # ls))"
  by pat_completeness auto
termination
  by (relation "measure length") (auto simp: skip_lf_def split: list.splits)

subsection \<open>The header pattern\<close>

text \<open>
  \<open>header_pat = re.compile(rf"\b(class|interface|enum)\s+{re.escape(simple_name)}\b")\<close>.
  \<open>re.escape\<close> makes the name match literally. \<open>\w\<close> and \<open>\s\<close> are the classes of a
  \<open>str\<close> pattern, here on the code points 0 to 255.
\<close>

definition is_word_char :: "char \<Rightarrow> bool" where
  "is_word_char c =
     (let k = (of_char c :: nat)
      in (0x30 \<le> k \<and> k \<le> 0x39) \<or> (0x41 \<le> k \<and> k \<le> 0x5A) \<or> k = 0x5F \<or>
         (0x61 \<le> k \<and> k \<le> 0x7A) \<or> k = 0xAA \<or> k = 0xB2 \<or> k = 0xB3 \<or> k = 0xB5 \<or>
         k = 0xB9 \<or> k = 0xBA \<or> (0xBC \<le> k \<and> k \<le> 0xBE) \<or> (0xC0 \<le> k \<and> k \<le> 0xD6) \<or>
         (0xD8 \<le> k \<and> k \<le> 0xF6) \<or> 0xF8 \<le> k)"

definition is_space_char :: "char \<Rightarrow> bool" where
  "is_space_char c =
     (let k = (of_char c :: nat)
      in (0x09 \<le> k \<and> k \<le> 0x0D) \<or> (0x1C \<le> k \<and> k \<le> 0x20) \<or> k = 0x85 \<or> k = 0xA0)"

text \<open>\<open>\b\<close> between the text \<open>pre\<close> and the text \<open>post\<close> the position: exactly one
  of the two neighbouring characters is a word character (a missing neighbour is not).\<close>

definition word_before :: "string \<Rightarrow> bool" where
  "word_before pre = (pre \<noteq> [] \<and> is_word_char (last pre))"

definition word_after :: "string \<Rightarrow> bool" where
  "word_after post = (case post of [] \<Rightarrow> False | c # _ \<Rightarrow> is_word_char c)"

definition at_boundary :: "string \<Rightarrow> string \<Rightarrow> bool" where
  "at_boundary pre post = (word_before pre \<noteq> word_after post)"

text \<open>A literal: \<open>strip_prefix p s\<close> is what follows \<open>p\<close> in \<open>s\<close>, if \<open>s\<close> starts with \<open>p\<close>.\<close>

fun strip_prefix :: "string \<Rightarrow> string \<Rightarrow> string option" where
  "strip_prefix [] s = Some s"
| "strip_prefix (p # ps) [] = None"
| "strip_prefix (p # ps) (c # cs) = (if p = c then strip_prefix ps cs else None)"

text \<open>The literal name followed by \<open>\b\<close>, tried where \<open>pre\<close> has been read.\<close>

definition name_here :: "string \<Rightarrow> string \<Rightarrow> string \<Rightarrow> bool" where
  "name_here name pre s =
     (case strip_prefix name s of
        None \<Rightarrow> False
      | Some rest \<Rightarrow> at_boundary (pre @ name) rest)"

text \<open>\<open>\s+\<close> and then the name: one whitespace character at least, and then the name
  either starts or more whitespace is taken.\<close>

fun spaces_then_name :: "string \<Rightarrow> string \<Rightarrow> string \<Rightarrow> bool" where
  "spaces_then_name name pre [] = False"
| "spaces_then_name name pre (c # cs) =
     (is_space_char c \<and>
      (name_here name (pre @ [c]) cs \<or> spaces_then_name name (pre @ [c]) cs))"

definition header_keywords :: "string list" where
  "header_keywords = [''class'', ''interface'', ''enum'']"

text \<open>One alternative of \<open>(class|interface|enum)\<close> and the rest of the pattern.\<close>

definition keyword_here :: "string \<Rightarrow> string \<Rightarrow> string \<Rightarrow> string \<Rightarrow> bool" where
  "keyword_here name pre s kw =
     (case strip_prefix kw s of
        None \<Rightarrow> False
      | Some rest \<Rightarrow> spaces_then_name name (pre @ kw) rest)"

text \<open>The whole pattern tried at one position of the line.\<close>

definition match_here :: "string \<Rightarrow> string \<Rightarrow> string \<Rightarrow> bool" where
  "match_here name pre s =
     (at_boundary pre s \<and> list_ex (keyword_here name pre s) header_keywords)"

text \<open>\<open>header_pat.search(line)\<close> is not \<open>None\<close>: the pattern matches at some position,
  tried from the left.\<close>

fun search_from :: "string \<Rightarrow> string \<Rightarrow> string \<Rightarrow> bool" where
  "search_from name pre [] = match_here name pre []"
| "search_from name pre (c # cs) =
     (match_here name pre (c # cs) \<or> search_from name (pre @ [c]) cs)"

definition header_search :: "string \<Rightarrow> string \<Rightarrow> bool" where
  "header_search name line = search_from name [] line"

subsection \<open>The header locator\<close>

text \<open>The loop over \<open>search_range\<close>: \<open>for i in range(i, hi)\<close>, leaving at the first
  line that matches.\<close>

function search_range :: "string \<Rightarrow> string list \<Rightarrow> int \<Rightarrow> int \<Rightarrow> py_error + int option" where
  "search_range name lines i hi =
     (if i < hi then
        (case py_get lines i of
           Inl e \<Rightarrow> Inl e
         | Inr line \<Rightarrow>
             if header_search name line then Inr (Some i)
             else search_range name lines (i + 1) hi)
      else Inr None)"
  by pat_completeness auto
termination
  by (relation "measure (\<lambda>(name, lines, i, hi). nat (hi - i))") auto

text \<open>The loop \<open>for i, line in enumerate(lines)\<close>, counting from \<open>i\<close>.\<close>

fun search_enumerate :: "string \<Rightarrow> int \<Rightarrow> string list \<Rightarrow> int option" where
  "search_enumerate name i [] = None"
| "search_enumerate name i (line # rest) =
     (if header_search name line then Some i else search_enumerate name (i + 1) rest)"

text \<open>Lines 59 to 73: the window around \<open>start_idx\<close> first, the whole file if the
  window has no header.\<close>

definition find_header :: "string \<Rightarrow> string list \<Rightarrow> int \<Rightarrow> py_error + int option" where
  "find_header simple_name lines start_idx =
     (let n = int (length lines)
      in case search_range simple_name lines (max 0 (start_idx - 5)) (min n (start_idx + 10)) of
           Inl e \<Rightarrow> Inl e
         | Inr (Some i) \<Rightarrow> Inr (Some i)
         | Inr None \<Rightarrow> Inr (search_enumerate simple_name 0 lines))"

subsection \<open>The brace matcher\<close>

text \<open>What the loop over the characters of one line leaves: \<open>Closed\<close> when it has set
  \<open>end_idx\<close> and left by \<open>break\<close>, else \<open>Scanning depth opened\<close> with the two variables as
  they are at the end of the line.\<close>

datatype scan_state = Closed | Scanning int bool

fun scan_chars :: "string \<Rightarrow> int \<Rightarrow> bool \<Rightarrow> scan_state" where
  "scan_chars [] depth opened = Scanning depth opened"
| "scan_chars (ch # rest) depth opened =
     (if ch = CHR ''{'' then scan_chars rest (depth + 1) True
      else if ch = CHR ''}'' then
        (if opened \<and> depth - 1 = 0 then Closed
         else scan_chars rest (depth - 1) opened)
      else scan_chars rest depth opened)"

text \<open>The loop \<open>for rel_line_idx in range(rel_line_idx, n)\<close>.\<close>

function scan_lines :: "string list \<Rightarrow> int \<Rightarrow> int \<Rightarrow> int \<Rightarrow> bool \<Rightarrow> py_error + int option" where
  "scan_lines lines rel_line_idx n depth opened =
     (if rel_line_idx < n then
        (case py_get lines rel_line_idx of
           Inl e \<Rightarrow> Inl e
         | Inr line \<Rightarrow>
             (case scan_chars line depth opened of
                Closed \<Rightarrow> Inr (Some rel_line_idx)
              | Scanning depth' opened' \<Rightarrow> scan_lines lines (rel_line_idx + 1) n depth' opened'))
      else Inr None)"
  by pat_completeness auto
termination
  by (relation "measure (\<lambda>(lines, rel_line_idx, n, depth, opened). nat (n - rel_line_idx))") auto

text \<open>Lines 84 to 101: \<open>depth = 0\<close>, \<open>opened = False\<close>, from the header line on.\<close>

definition find_end :: "string list \<Rightarrow> int \<Rightarrow> py_error + int option" where
  "find_end lines header_idx = scan_lines lines header_idx (int (length lines)) 0 False"

subsection \<open>The extractor\<close>

text \<open>
  The body of \<open>extract_class_block\<close> from line 50 on, on the lines of the text: the
  range check (State A), the simple name, the header search (State B when it finds
  nothing), the brace match (State C when it finds no end) and the block with its cap
  (State D).
\<close>

definition extract_from_lines :: "string list \<Rightarrow> int \<Rightarrow> string \<Rightarrow> int \<Rightarrow> py_error + string" where
  "extract_from_lines lines start_line class_name loc_limit =
     (let n = int (length lines)
      in if start_line < 1 \<or> start_line > n then Inr (join_lines (py_slice_to lines loc_limit))
         else
           let start_idx = start_line - 1
           in case py_get (split_dot class_name) (- 1) of
                Inl e \<Rightarrow> Inl e
              | Inr simple_name \<Rightarrow>
                  (case find_header simple_name lines start_idx of
                     Inl e \<Rightarrow> Inl e
                   | Inr None \<Rightarrow>
                       (let lo = max 0 (start_idx - 5);
                            hi = min n (lo + loc_limit)
                        in Inr (join_lines (py_slice lines lo hi)))
                   | Inr (Some header_idx) \<Rightarrow>
                       (case find_end lines header_idx of
                          Inl e \<Rightarrow> Inl e
                        | Inr None \<Rightarrow>
                            (let lo = max 0 header_idx;
                                 hi = min n (lo + loc_limit)
                             in Inr (join_lines (py_slice lines lo hi)))
                        | Inr (Some end_idx) \<Rightarrow>
                            (let lo = max 0 header_idx;
                                 hi = end_idx + 1;
                                 excerpt_lines = py_slice lines lo hi
                             in Inr (join_lines
                                  (if int (length excerpt_lines) > loc_limit
                                   then py_slice_to excerpt_lines loc_limit
                                   else excerpt_lines))))))"

text \<open>\<open>extract_class_block(text, start_line, class_name, loc_limit)\<close>, with
  \<open>lines = text.splitlines()\<close> first.\<close>

definition extract_class_block :: "string \<Rightarrow> int \<Rightarrow> string \<Rightarrow> int \<Rightarrow> py_error + string" where
  "extract_class_block text start_line class_name loc_limit =
     extract_from_lines (splitlines text) start_line class_name loc_limit"

subsection \<open>Example files\<close>

text \<open>A file of 52 lines whose only header for \<open>Bar\<close> is on line 50.\<close>

definition bar_file :: "string list" where
  "bar_file = replicate 49 ''// filler'' @ [''class Bar {'', ''  int x;'', ''}'']"

subsection \<open>The brace matcher, as the specification words it\<close>

text \<open>
  The specification describes the matcher by the braces read so far: the depth is the
  number of \<open>{\<close> minus the number of \<open>}\<close>, and \<open>opened\<close> says that a \<open>{\<close> has been read.
  \<open>chars_before lines h e\<close> are the characters of the lines \<open>h\<close> to \<open>e - 1\<close>. The \<open>}\<close> at
  position \<open>k\<close> of line \<open>e\<close> closes the block when a \<open>{\<close> has been read before it and
  the depth after it is 0; line \<open>e\<close> closes the block when one of its characters does.
  These definitions are compared with \<open>find_end\<close>, which follows the source.
\<close>

definition net_depth :: "string \<Rightarrow> int" where
  "net_depth cs = int (count_list cs (CHR ''{'')) - int (count_list cs (CHR ''}''))"

definition chars_before :: "string list \<Rightarrow> nat \<Rightarrow> nat \<Rightarrow> string" where
  "chars_before lines h e = concat (take (e - h) (drop h lines))"

definition closing_at :: "string list \<Rightarrow> nat \<Rightarrow> nat \<Rightarrow> nat \<Rightarrow> bool" where
  "closing_at lines h e k \<longleftrightarrow>
     lines ! e ! k = CHR ''}'' \<and>
     CHR ''{'' \<in> set (chars_before lines h e @ take k (lines ! e)) \<and>
     net_depth (chars_before lines h e @ take (Suc k) (lines ! e)) = 0"

definition closes_on :: "string list \<Rightarrow> nat \<Rightarrow> nat \<Rightarrow> bool" where
  "closes_on lines h e \<longleftrightarrow> (\<exists>k \<in> {..<length (lines ! e)}. closing_at lines h e k)"

text \<open>A file with a closing brace inside a string literal and an opening brace inside
  a comment, both on its second line.\<close>

definition literal_file :: "string list" where
  \<open>literal_file = [''class A {'', ''  String s = "}"; // {'', ''  int x;'', ''}'']\<close>

text \<open>A file of 8 lines without any type header.\<close>

definition plain_file :: "string list" where
  "plain_file = [''a'', ''b'', ''c'', ''d'', ''e'', ''f'', ''g'', ''h'']"

text \<open>A file of 20 lines: \<open>class Foo {\<close> on line 10, its closing brace alone on line 18.\<close>

definition foo_file :: "string list" where
  "foo_file = replicate 9 ''// preamble'' @
     [''class Foo {'', ''  int a;'', ''  void f() {'', ''    a = 1;'', ''  }'', ''  int b;'',
      ''  int c;'', ''  int d;'', ''}'', ''// trailer'', ''// trailer'']"

text \<open>A file whose class body is never closed.\<close>

definition open_file :: "string list" where
  "open_file = [''class Foo {'', ''  int x;'', ''  void f() {'', ''  }'']"

subsection \<open>The record that \<open>main\<close> emits\<close>

text \<open>
  A row of the smells table with the fields \<open>main\<close> copies, and the object written for
  it. The metrics are kept as parsed, of any type. \<open>build_case\<close> is the body of the loop
  once the row has passed its checks: \<open>start_line\<close> is the parsed \<open>Line no\<close>, \<open>java_path\<close>
  the file found and \<open>code\<close> its text.
\<close>

record 'm smell_row =
  row_case_id :: string
  row_project :: string
  row_package :: string
  row_class_name :: string
  row_smell_type :: string
  row_detector_reason :: string
  row_metrics :: 'm

record 'm case_obj =
  case_id :: string
  project :: string
  file_path :: string
  package :: string
  obj_class_name :: string
  smell_type :: string
  detector_reason :: string
  metrics :: 'm
  code_excerpt :: string
  excerpt_strategy :: string

definition build_case :: "'m smell_row \<Rightarrow> int \<Rightarrow> string \<Rightarrow> string \<Rightarrow> int \<Rightarrow> py_error + 'm case_obj" where
  "build_case r start_line java_path code loc_limit =
     (case extract_class_block code start_line (row_class_name r) loc_limit of
        Inl e \<Rightarrow> Inl e
      | Inr excerpt \<Rightarrow>
          Inr \<lparr>case_id = row_case_id r,
               project = row_project r,
               file_path = java_path,
               package = row_package r,
               obj_class_name = row_class_name r,
               smell_type = row_smell_type r,
               detector_reason = row_detector_reason r,
               metrics = row_metrics r,
               code_excerpt = excerpt,
               excerpt_strategy = ''line_based_class_block''\<rparr>)"

subsection \<open>The paths of the fallback policy, as the specification names them\<close>

text \<open>
  The specification names four outcomes: State A (line out of range), State B (header
  not found), State C (brace match incomplete) and State D (exact match). \<open>path_of\<close>
  follows the branches of \<open>extract_class_block\<close> and says which one is taken.
\<close>

datatype extract_path = OutOfRange | HeaderNotFound | Unterminated | ExactMatch

definition path_of :: "string \<Rightarrow> int \<Rightarrow> string \<Rightarrow> py_error + extract_path" where
  "path_of text start_line class_name =
     (let lines = splitlines text; n = int (length lines)
      in if start_line < 1 \<or> start_line > n then Inr OutOfRange
         else
           case py_get (split_dot class_name) (- 1) of
             Inl e \<Rightarrow> Inl e
           | Inr simple_name \<Rightarrow>
               (case find_header simple_name lines (start_line - 1) of
                  Inl e \<Rightarrow> Inl e
                | Inr None \<Rightarrow> Inr HeaderNotFound
                | Inr (Some header_idx) \<Rightarrow>
                    (case find_end lines header_idx of
                       Inl e \<Rightarrow> Inl e
                     | Inr None \<Rightarrow> Inr Unterminated
                     | Inr (Some end_idx) \<Rightarrow> Inr ExactMatch)))"

text \<open>A row for the class of \<open>foo_file\<close>.\<close>

definition foo_row :: "unit smell_row" where
  "foo_row = \<lparr>row_case_id = ''k9_0001'', row_project = ''k9'', row_package = ''app'',
     row_class_name = ''Foo'', row_smell_type = ''Insufficient Modularization'',
     row_detector_reason = ''large class'', row_metrics = ()\<rparr>"

section \<open>Properties of the extractor\<close>

subsection \<open>Slices\<close>

lemma py_slice_to_nonneg: "0 \<le> hi \<Longrightarrow> py_slice_to xs hi = take (nat hi) xs"
  by (simp add: py_slice_to_def slice_bound_def min_def)

lemma py_slice_zero: "py_slice xs 0 hi = py_slice_to xs hi"
  by (simp add: py_slice_def py_slice_to_def slice_bound_def)

text \<open>
  Claim C5 (State A). When the reported line is outside \<open>1..line_count\<close>, the extractor
  returns the newline-join of \<open>lines[0:loc_limit]\<close>, whatever the type name is; for a
  cap that is not negative these are the first \<open>loc_limit\<close> lines of the file, or all
  lines if the file is shorter.
\<close>

theorem out_of_range_fallback:
  "start_line < 1 \<or> int (length (splitlines text)) < start_line \<Longrightarrow>
     extract_class_block text start_line class_name loc_limit =
       Inr (join_lines (py_slice (splitlines text) 0 loc_limit)) \<and>
     (0 \<le> loc_limit \<longrightarrow>
        extract_class_block text start_line class_name loc_limit =
          Inr (join_lines (take (nat loc_limit) (splitlines text))))"
  by (auto simp: extract_class_block_def extract_from_lines_def py_slice_zero py_slice_to_nonneg)

theorem out_of_range_fallback_witness:
  "((9999::int) < 1 \<or> int (length (splitlines (join_lines (replicate 50 ''line'')))) < 9999) \<and>
   extract_class_block (join_lines (replicate 50 ''line'')) 9999 ''Foo'' 3 =
     Inr (join_lines (replicate 3 ''line''))"
proof -
  let ?t = "join_lines (replicate 50 ''line'')"
  have s: "splitlines ?t = replicate 50 ''line''"
    by code_simp
  have h: "(9999::int) < 1 \<or> int (length (splitlines ?t)) < 9999"
    by (simp add: s)
  from out_of_range_fallback [OF h, of "''Foo''" 3]
  have "extract_class_block ?t 9999 ''Foo'' 3 = Inr (join_lines (take (nat 3) (splitlines ?t)))"
    by (simp add: py_slice_zero py_slice_to_nonneg)
  then show ?thesis
    using h by (simp add: s)
qed

subsection \<open>The header locator\<close>

lemma py_get_in_range: "0 \<le> i \<Longrightarrow> i < int (length xs) \<Longrightarrow> py_get xs i = Inr (xs ! nat i)"
  by (simp add: py_get_def)

lemma search_range_Some:
  "0 \<le> i \<Longrightarrow> hi \<le> int (length lines) \<Longrightarrow>
   search_range name lines i hi = Inr (Some j) \<longleftrightarrow>
     i \<le> j \<and> j < hi \<and> header_search name (lines ! nat j) \<and>
     (\<forall>k. i \<le> k \<and> k < j \<longrightarrow> \<not> header_search name (lines ! nat k))"
proof (induction name lines i hi rule: search_range.induct)
  case (1 name lines i hi)
  show ?case
  proof (cases "i < hi")
    case False
    then show ?thesis
      by (subst search_range.simps) auto
  next
    case True
    with "1.prems" have get: "py_get lines i = Inr (lines ! nat i)"
      by (simp add: py_get_in_range)
    show ?thesis
    proof (cases "header_search name (lines ! nat i)")
      case hit: True
      have "search_range name lines i hi = Inr (Some i)"
        using True get hit by (subst search_range.simps) simp
      moreover have "j = i" if "i \<le> j" "\<forall>k. i \<le> k \<and> k < j \<longrightarrow> \<not> header_search name (lines ! nat k)"
        using that hit by (cases "i < j") auto
      ultimately show ?thesis
        using True hit by auto
    next
      case miss: False
      have step: "search_range name lines i hi = search_range name lines (i + 1) hi"
        using True get miss by (subst search_range.simps) simp
      have IH: "search_range name lines (i + 1) hi = Inr (Some j) \<longleftrightarrow>
         i + 1 \<le> j \<and> j < hi \<and> header_search name (lines ! nat j) \<and>
         (\<forall>k. i + 1 \<le> k \<and> k < j \<longrightarrow> \<not> header_search name (lines ! nat k))"
        using "1.IH" [OF True get miss] "1.prems" by simp
      have "(\<forall>k. i + 1 \<le> k \<and> k < j \<longrightarrow> \<not> header_search name (lines ! nat k)) \<longleftrightarrow>
            (\<forall>k. i \<le> k \<and> k < j \<longrightarrow> \<not> header_search name (lines ! nat k))"
        using miss by (metis add1_zle_eq order_le_less)
      moreover have "i + 1 \<le> j \<longleftrightarrow> i \<le> j" if "header_search name (lines ! nat j)"
        using that miss by (cases "i = j") auto
      ultimately show ?thesis
        unfolding step IH by auto
    qed
  qed
qed

lemma search_range_None:
  "0 \<le> i \<Longrightarrow> hi \<le> int (length lines) \<Longrightarrow>
   search_range name lines i hi = Inr None \<longleftrightarrow>
     (\<forall>k. i \<le> k \<and> k < hi \<longrightarrow> \<not> header_search name (lines ! nat k))"
proof (induction name lines i hi rule: search_range.induct)
  case (1 name lines i hi)
  show ?case
  proof (cases "i < hi")
    case False
    then show ?thesis
      by (subst search_range.simps) auto
  next
    case True
    with "1.prems" have get: "py_get lines i = Inr (lines ! nat i)"
      by (simp add: py_get_in_range)
    show ?thesis
    proof (cases "header_search name (lines ! nat i)")
      case hit: True
      have "search_range name lines i hi = Inr (Some i)"
        using True get hit by (subst search_range.simps) simp
      then show ?thesis
        using True hit by auto
    next
      case miss: False
      have step: "search_range name lines i hi = search_range name lines (i + 1) hi"
        using True get miss by (subst search_range.simps) simp
      have IH: "search_range name lines (i + 1) hi = Inr None \<longleftrightarrow>
         (\<forall>k. i + 1 \<le> k \<and> k < hi \<longrightarrow> \<not> header_search name (lines ! nat k))"
        using "1.IH" [OF True get miss] "1.prems" by simp
      have "(\<forall>k. i + 1 \<le> k \<and> k < hi \<longrightarrow> \<not> header_search name (lines ! nat k)) \<longleftrightarrow>
            (\<forall>k. i \<le> k \<and> k < hi \<longrightarrow> \<not> header_search name (lines ! nat k))"
        using miss by (metis add1_zle_eq order_le_less)
      then show ?thesis
        unfolding step IH by simp
    qed
  qed
qed

lemma search_range_no_error:
  "0 \<le> i \<Longrightarrow> hi \<le> int (length lines) \<Longrightarrow> search_range name lines i hi \<noteq> Inl e"
proof (induction name lines i hi rule: search_range.induct)
  case (1 name lines i hi)
  show ?case
  proof (cases "i < hi")
    case False
    then show ?thesis
      by (subst search_range.simps) auto
  next
    case True
    with "1.prems" have get: "py_get lines i = Inr (lines ! nat i)"
      by (simp add: py_get_in_range)
    show ?thesis
      using True get "1.IH" [OF True get] "1.prems"
      by (subst search_range.simps) auto
  qed
qed

lemma search_enumerate_nat:
  "search_enumerate name i lines = Some j \<longleftrightarrow>
     (\<exists>m<length lines. j = i + int m \<and> header_search name (lines ! m) \<and>
        (\<forall>k<m. \<not> header_search name (lines ! k)))"
proof (induction lines arbitrary: i)
  case Nil
  then show ?case by simp
next
  case (Cons line rest)
  show ?case
  proof (cases "header_search name line")
    case True
    have "m = 0" if "\<forall>k<m. \<not> header_search name ((line # rest) ! k)" for m
      using that True by (cases m) auto
    then show ?thesis
      using True by auto
  next
    case False
    have "(\<exists>m<length (line # rest). j = i + int m \<and> header_search name ((line # rest) ! m) \<and>
            (\<forall>k<m. \<not> header_search name ((line # rest) ! k))) \<longleftrightarrow>
          (\<exists>m<length rest. j = i + 1 + int m \<and> header_search name (rest ! m) \<and>
            (\<forall>k<m. \<not> header_search name (rest ! k)))"
      (is "?L \<longleftrightarrow> ?R")
    proof
      assume ?L
      then obtain m where m: "m < length (line # rest)" "j = i + int m"
        "header_search name ((line # rest) ! m)"
        "\<forall>k<m. \<not> header_search name ((line # rest) ! k)"
        by blast
      with False obtain m' where m': "m = Suc m'"
        by (cases m) auto
      have "\<forall>k<m'. \<not> header_search name (rest ! k)"
        using m(4) m' by auto
      with m m' show ?R
        by (intro exI [of _ m']) auto
    next
      assume ?R
      then obtain m where m: "m < length rest" "j = i + 1 + int m"
        "header_search name (rest ! m)" "\<forall>k<m. \<not> header_search name (rest ! k)"
        by blast
      have "\<forall>k<Suc m. \<not> header_search name ((line # rest) ! k)"
        using m(4) False by (auto simp: less_Suc_eq_0_disj)
      with m show ?L
        by (intro exI [of _ "Suc m"]) auto
    qed
    then show ?thesis
      using False Cons.IH [of "i + 1"] by simp
  qed
qed

lemma search_enumerate_None:
  "search_enumerate name i lines = None \<longleftrightarrow> (\<forall>l\<in>set lines. \<not> header_search name l)"
  by (induction lines arbitrary: i) auto


lemma search_enumerate_int:
  "search_enumerate name 0 lines = Some h \<longleftrightarrow>
     0 \<le> h \<and> h < int (length lines) \<and> header_search name (lines ! nat h) \<and>
     (\<forall>k. 0 \<le> k \<and> k < h \<longrightarrow> \<not> header_search name (lines ! nat k))"
  (is "?L \<longleftrightarrow> ?R")
proof
  assume ?L
  then obtain m where m: "m < length lines" "h = int m" "header_search name (lines ! m)"
    "\<forall>k<m. \<not> header_search name (lines ! k)"
    unfolding search_enumerate_nat by auto
  have "\<not> header_search name (lines ! nat k)" if "0 \<le> k" "k < h" for k
  proof -
    from that m(2) have "nat k < m" by linarith
    with m(4) show ?thesis by blast
  qed
  with m show ?R by auto
next
  assume r: ?R
  have "\<forall>k<nat h. \<not> header_search name (lines ! k)"
  proof (intro allI impI)
    fix k assume "k < nat h"
    then have "0 \<le> int k \<and> int k < h" by simp
    with r have "\<not> header_search name (lines ! nat (int k))" by blast
    then show "\<not> header_search name (lines ! k)" by simp
  qed
  with r show ?L
    unfolding search_enumerate_nat by (intro exI [of _ "nat h"]) auto
qed

lemma search_enumerate_None_int:
  "search_enumerate name 0 lines = None \<longleftrightarrow>
     (\<forall>k. 0 \<le> k \<and> k < int (length lines) \<longrightarrow> \<not> header_search name (lines ! nat k))"
  (is "?L \<longleftrightarrow> ?R")
proof
  assume ?L
  then show ?R
    by (simp add: search_enumerate_None nat_less_iff)
next
  assume r: ?R
  have "\<not> header_search name l" if "l \<in> set lines" for l
  proof -
    from that obtain m where m: "m < length lines" "l = lines ! m"
      by (auto simp: in_set_conv_nth)
    then have "0 \<le> int m \<and> int m < int (length lines)" by simp
    with r have "\<not> header_search name (lines ! nat (int m))" by blast
    with m show ?thesis by simp
  qed
  then show ?L
    by (simp add: search_enumerate_None)
qed

lemma find_header_spec:
  assumes "1 \<le> start_line" and "start_line \<le> int (length lines)"
  shows
    "(find_header name lines (start_line - 1) = Inr (Some h) \<longleftrightarrow>
        (max 0 (start_line - 1 - 5) \<le> h \<and> h < min (int (length lines)) (start_line - 1 + 10) \<and>
         header_search name (lines ! nat h) \<and>
         (\<forall>k. max 0 (start_line - 1 - 5) \<le> k \<and> k < h \<longrightarrow> \<not> header_search name (lines ! nat k)))
        \<or>
        ((\<forall>k. max 0 (start_line - 1 - 5) \<le> k \<and> k < min (int (length lines)) (start_line - 1 + 10)
              \<longrightarrow> \<not> header_search name (lines ! nat k)) \<and>
         0 \<le> h \<and> h < int (length lines) \<and> header_search name (lines ! nat h) \<and>
         (\<forall>k. 0 \<le> k \<and> k < h \<longrightarrow> \<not> header_search name (lines ! nat k)))) \<and>
     (find_header name lines (start_line - 1) = Inr None \<longleftrightarrow>
        (\<forall>k. 0 \<le> k \<and> k < int (length lines) \<longrightarrow> \<not> header_search name (lines ! nat k))) \<and>
     find_header name lines (start_line - 1) \<noteq> Inl e"
proof -
  let ?lo = "max 0 (start_line - 1 - 5)"
  let ?hi = "min (int (length lines)) (start_line - 1 + 10)"
  let ?hit = "\<lambda>k. header_search name (lines ! nat k)"
  let ?A = "?lo \<le> h \<and> h < ?hi \<and> ?hit h \<and> (\<forall>k. ?lo \<le> k \<and> k < h \<longrightarrow> \<not> ?hit k)"
  let ?W = "\<forall>k. ?lo \<le> k \<and> k < ?hi \<longrightarrow> \<not> ?hit k"
  let ?B = "0 \<le> h \<and> h < int (length lines) \<and> ?hit h \<and> (\<forall>k. 0 \<le> k \<and> k < h \<longrightarrow> \<not> ?hit k)"
  let ?N = "\<forall>k. 0 \<le> k \<and> k < int (length lines) \<longrightarrow> \<not> ?hit k"
  let ?f = "find_header name lines (start_line - 1)"
  have lo: "0 \<le> ?lo" and hi: "?hi \<le> int (length lines)"
    by simp_all
  note S = search_range_Some [OF lo hi, of name]
  note N = search_range_None [OF lo hi, of name]
  note E = search_range_no_error [OF lo hi, of name]
  have "(?f = Inr (Some h) \<longleftrightarrow> ?A \<or> (?W \<and> ?B)) \<and> (?f = Inr None \<longleftrightarrow> ?N) \<and> ?f \<noteq> Inl e"
  proof (cases "search_range name lines ?lo ?hi")
    case (Inl e')
    with E show ?thesis by simp
  next
    case (Inr r)
    show ?thesis
    proof (cases r)
      case None
      with Inr have win: ?W
        using N by simp
      have fh: "?f = Inr (search_enumerate name 0 lines)"
        using Inr None by (simp add: find_header_def)
      have notA: "\<not> ?A"
        using win by blast
      have e1: "(search_enumerate name 0 lines = Some h) = ?B"
        by (rule search_enumerate_int)
      have e2: "(search_enumerate name 0 lines = None) = ?N"
        by (rule search_enumerate_None_int)
      have c1: "?f = Inr (Some h) \<longleftrightarrow> ?A \<or> (?W \<and> ?B)"
        unfolding fh sum.inject using e1 notA win by blast
      have c2: "?f = Inr None \<longleftrightarrow> ?N"
        unfolding fh sum.inject using e2 by blast
      have c3: "?f \<noteq> Inl e"
        unfolding fh by simp
      from c1 c2 c3 show ?thesis by blast
    next
      case (Some i)
      with Inr have i: "?lo \<le> i" "i < ?hi" "?hit i" "\<forall>k. ?lo \<le> k \<and> k < i \<longrightarrow> \<not> ?hit k"
        using S [of i] by simp_all
      have fh: "?f = Inr (Some i)"
        using Inr Some by (simp add: find_header_def)
      have nowin: "\<not> ?W"
        using i by blast
      have i0: "0 \<le> i" "i < int (length lines)"
        using i(1,2) by simp_all
      have nonone: "\<not> ?N"
        using i(3) i0 by blast
      have uniq: "h = i" if "?A"
      proof (rule ccontr)
        assume "h \<noteq> i"
        then consider "h < i" | "i < h" by linarith
        then show False
        proof cases
          case 1 with i(4) that show False by blast
        next
          case 2 with that i show False by blast
        qed
      qed
      have at_i: "?A" if "h = i"
        using that i by blast
      have c1: "?f = Inr (Some h) \<longleftrightarrow> ?A \<or> (?W \<and> ?B)"
        unfolding fh sum.inject option.inject using uniq at_i nowin by blast
      have c2: "?f = Inr None \<longleftrightarrow> ?N"
        unfolding fh using nonone by simp
      have c3: "?f \<noteq> Inl e"
        unfolding fh by simp
      from c1 c2 c3 show ?thesis by blast
    qed
  qed
  then show ?thesis .
qed

text \<open>
  Claim C3 (header search order). For a reported line within \<open>1..line_count\<close> and
  \<open>anchor = start_line - 1\<close>, the locator returns index \<open>h\<close> exactly when \<open>h\<close> is the
  first matching index of the window \<open>[max 0 (anchor - 5), min line_count (anchor + 10))\<close>,
  or the window has no matching line and \<open>h\<close> is the first matching index of the whole
  file; it returns nothing exactly when no line of the file matches, and it never
  raises.
\<close>

theorem header_search_order:
  assumes "1 \<le> start_line" and "start_line \<le> int (length lines)"
  shows
    "(find_header name lines (start_line - 1) = Inr (Some h) \<longleftrightarrow>
        (max 0 (start_line - 1 - 5) \<le> h \<and> h < min (int (length lines)) (start_line - 1 + 10) \<and>
         header_search name (lines ! nat h) \<and>
         (\<forall>k. max 0 (start_line - 1 - 5) \<le> k \<and> k < h \<longrightarrow> \<not> header_search name (lines ! nat k)))
        \<or>
        ((\<forall>k. max 0 (start_line - 1 - 5) \<le> k \<and> k < min (int (length lines)) (start_line - 1 + 10)
              \<longrightarrow> \<not> header_search name (lines ! nat k)) \<and>
         0 \<le> h \<and> h < int (length lines) \<and> header_search name (lines ! nat h) \<and>
         (\<forall>k. 0 \<le> k \<and> k < h \<longrightarrow> \<not> header_search name (lines ! nat k)))) \<and>
     (find_header name lines (start_line - 1) = Inr None \<longleftrightarrow>
        (\<forall>k. 0 \<le> k \<and> k < int (length lines) \<longrightarrow> \<not> header_search name (lines ! nat k))) \<and>
     find_header name lines (start_line - 1) \<noteq> Inl e"
  using assms by (rule find_header_spec)

theorem header_search_order_witness:
  "(1::int) \<le> 1 \<and> 1 \<le> int (length bar_file) \<and>
   find_header ''Bar'' bar_file (1 - 1) = Inr (Some 49) \<and>
   search_range ''Bar'' bar_file 0 10 = Inr None \<and>
   extract_class_block (join_lines bar_file) 1 ''Bar'' 400 =
     Inr (join_lines [''class Bar {'', ''  int x;'', ''}''])"
proof -
  have len: "int (length bar_file) = 52"
    by (simp add: bar_file_def)
  have h1: "(1::int) \<le> 1" and h2: "1 \<le> int (length bar_file)"
    by (simp_all add: len)
  have filler: "\<not> header_search ''Bar'' ''// filler''"
    by code_simp
  have miss: "\<not> header_search ''Bar'' (bar_file ! nat k)" if "0 \<le> k" "k < 49" for k
  proof -
    from that have "nat k < 49" by simp
    then have "bar_file ! nat k = ''// filler''"
      by (simp add: bar_file_def nth_append)
    with filler show ?thesis by simp
  qed
  have hit: "header_search ''Bar'' (bar_file ! nat 49)"
    unfolding bar_file_def by code_simp
  have win: "\<forall>k. max 0 (1 - 1 - 5) \<le> k \<and> k < min (int (length bar_file)) (1 - 1 + 10)
               \<longrightarrow> \<not> header_search ''Bar'' (bar_file ! nat k)"
    using miss by (simp add: len)
  have all: "\<forall>k. 0 \<le> k \<and> k < 49 \<longrightarrow> \<not> header_search ''Bar'' (bar_file ! nat k)"
    using miss by blast
  have found: "find_header ''Bar'' bar_file (1 - 1) = Inr (Some 49)"
    using header_search_order [OF h1 h2, of "''Bar''" 49, THEN conjunct1] win hit all
    by (simp add: len)
  have window: "search_range ''Bar'' bar_file 0 10 = Inr None"
    unfolding bar_file_def by code_simp
  have excerpt: "extract_class_block (join_lines bar_file) 1 ''Bar'' 400 =
      Inr (join_lines [''class Bar {'', ''  int x;'', ''}''])"
    unfolding bar_file_def by code_simp
  from h1 h2 found window excerpt show ?thesis
    by blast
qed

subsection \<open>The brace matcher\<close>

lemma net_depth_Nil [simp]: "net_depth [] = 0"
  by (simp add: net_depth_def)

lemma net_depth_snoc:
  "net_depth (P @ [c]) =
     (if c = CHR ''{'' then net_depth P + 1 else if c = CHR ''}'' then net_depth P - 1 else net_depth P)"
  by (simp add: net_depth_def)

text \<open>The state after a prefix \<open>P\<close> of the characters, and the line that follows.\<close>

lemma scan_chars_Closed:
  "scan_chars l (net_depth P) (CHR ''{'' \<in> set P) = Closed \<longleftrightarrow>
     (\<exists>k<length l. l ! k = CHR ''}'' \<and> CHR ''{'' \<in> set (P @ take k l) \<and>
        net_depth (P @ take (Suc k) l) = 0)"
proof (induction l arbitrary: P)
  case Nil
  then show ?case by simp
next
  case (Cons c l)
  let ?Q = "P @ [c]"
  have shift: "(\<exists>k<length (c # l). (c # l) ! k = CHR ''}'' \<and> CHR ''{'' \<in> set (P @ take k (c # l)) \<and>
        net_depth (P @ take (Suc k) (c # l)) = 0) \<longleftrightarrow>
     (c = CHR ''}'' \<and> CHR ''{'' \<in> set P \<and> net_depth ?Q = 0) \<or>
     (\<exists>k<length l. l ! k = CHR ''}'' \<and> CHR ''{'' \<in> set (?Q @ take k l) \<and>
        net_depth (?Q @ take (Suc k) l) = 0)"
    (is "?L \<longleftrightarrow> ?H \<or> ?R")
  proof
    assume ?L
    then obtain k where k: "k < length (c # l)" "(c # l) ! k = CHR ''}''"
      "CHR ''{'' \<in> set (P @ take k (c # l))" "net_depth (P @ take (Suc k) (c # l)) = 0"
      by blast
    show "?H \<or> ?R"
    proof (cases k)
      case 0
      with k show ?thesis by simp
    next
      case (Suc k')
      with k have "k' < length l \<and> l ! k' = CHR ''}'' \<and> CHR ''{'' \<in> set (?Q @ take k' l) \<and>
        net_depth (?Q @ take (Suc k') l) = 0"
        by simp
      then show ?thesis by blast
    qed
  next
    assume "?H \<or> ?R"
    then show ?L
    proof
      assume ?H
      then show ?L by (intro exI [of _ 0]) auto
    next
      assume ?R
      then obtain k where "k < length l" "l ! k = CHR ''}''" "CHR ''{'' \<in> set (?Q @ take k l)"
        "net_depth (?Q @ take (Suc k) l) = 0"
        by blast
      then show ?L by (intro exI [of _ "Suc k"]) simp
    qed
  qed
  have IH: "scan_chars l (net_depth ?Q) (CHR ''{'' \<in> set ?Q) = Closed \<longleftrightarrow> ?R"
    by (rule Cons.IH)
  have step: "scan_chars (c # l) (net_depth P) (CHR ''{'' \<in> set P) = Closed \<longleftrightarrow>
      ?H \<or> scan_chars l (net_depth ?Q) (CHR ''{'' \<in> set ?Q) = Closed"
    by (auto simp: net_depth_snoc)
  show ?case
    by (simp only: step IH shift)
qed

lemma scan_chars_Scanning:
  "scan_chars l (net_depth P) (CHR ''{'' \<in> set P) = Scanning d opn \<Longrightarrow>
     d = net_depth (P @ l) \<and> opn = (CHR ''{'' \<in> set (P @ l))"
proof (induction l arbitrary: P)
  case Nil
  then show ?case by simp
next
  case (Cons c l)
  let ?Q = "P @ [c]"
  have "scan_chars l (net_depth ?Q) (CHR ''{'' \<in> set ?Q) = Scanning d opn"
    using Cons.prems by (auto simp: net_depth_snoc split: if_splits)
  from Cons.IH [OF this] show ?case by simp
qed


lemma chars_before_Suc:
  assumes "h \<le> i" and "i < length lines"
  shows "chars_before lines h (Suc i) = chars_before lines h i @ lines ! i"
proof -
  from assms have "Suc i - h = Suc (i - h)" and "i - h < length (drop h lines)"
    by simp_all
  then have "take (Suc i - h) (drop h lines) = take (i - h) (drop h lines) @ [drop h lines ! (i - h)]"
    by (simp add: take_Suc_conv_app_nth)
  with assms show ?thesis
    by (simp add: chars_before_def)
qed

lemma scan_chars_closes_on:
  "scan_chars (lines ! i) (net_depth (chars_before lines h i))
      (CHR ''{'' \<in> set (chars_before lines h i)) = Closed \<longleftrightarrow> closes_on lines h i"
  unfolding scan_chars_Closed closes_on_def closing_at_def
  by (simp add: Bex_def)

lemma scan_lines_spec:
  assumes "h \<le> i" and "i \<le> length lines"
  shows "(scan_lines lines (int i) (int (length lines)) (net_depth (chars_before lines h i))
            (CHR ''{'' \<in> set (chars_before lines h i)) = Inr (Some j) \<longleftrightarrow>
          (\<exists>e. j = int e \<and> i \<le> e \<and> e < length lines \<and> closes_on lines h e \<and>
               (\<forall>e'. i \<le> e' \<and> e' < e \<longrightarrow> \<not> closes_on lines h e'))) \<and>
         (scan_lines lines (int i) (int (length lines)) (net_depth (chars_before lines h i))
            (CHR ''{'' \<in> set (chars_before lines h i)) = Inr None \<longleftrightarrow>
          (\<forall>e. i \<le> e \<and> e < length lines \<longrightarrow> \<not> closes_on lines h e)) \<and>
         scan_lines lines (int i) (int (length lines)) (net_depth (chars_before lines h i))
            (CHR ''{'' \<in> set (chars_before lines h i)) \<noteq> Inl err"
  using assms
proof (induction "length lines - i" arbitrary: i)
  case 0
  then have "i = length lines" by simp
  then show ?case
    by (subst (1 2 3) scan_lines.simps) auto
next
  case (Suc m)
  let ?P = "chars_before lines h i"
  let ?first = "\<lambda>i e. i \<le> e \<and> e < length lines \<and> closes_on lines h e \<and>
               (\<forall>e'. i \<le> e' \<and> e' < e \<longrightarrow> \<not> closes_on lines h e')"
  from Suc have i: "i < length lines" by simp
  then have get: "py_get lines (int i) = Inr (lines ! i)"
    by (simp add: py_get_def)
  show ?case
  proof (cases "closes_on lines h i")
    case True
    then have "scan_chars (lines ! i) (net_depth ?P) (CHR ''{'' \<in> set ?P) = Closed"
      by (simp add: scan_chars_closes_on)
    then have res: "scan_lines lines (int i) (int (length lines)) (net_depth ?P)
        (CHR ''{'' \<in> set ?P) = Inr (Some (int i))"
      using i get by (subst scan_lines.simps) simp
    have only: "e = i" if "?first i e" for e
    proof (rule ccontr)
      assume "e \<noteq> i"
      with that have "i < e" by simp
      with that True show False by blast
    qed
    have here: "?first i i"
      using True i by auto
    have a: "(Some (int i) = Some j) \<longleftrightarrow> (\<exists>e. j = int e \<and> ?first i e)"
      using only here by auto
    have b: "\<not> (\<forall>e. i \<le> e \<and> e < length lines \<longrightarrow> \<not> closes_on lines h e)"
      using True i by blast
    show ?thesis
      unfolding res using a b by simp
  next
    case False
    then obtain d opn where sc:
      "scan_chars (lines ! i) (net_depth ?P) (CHR ''{'' \<in> set ?P) = Scanning d opn"
      using scan_chars_closes_on [of lines i h]
      by (cases "scan_chars (lines ! i) (net_depth ?P) (CHR ''{'' \<in> set ?P)") auto
    from scan_chars_Scanning [OF sc] chars_before_Suc [OF Suc.prems(1) i]
    have st: "d = net_depth (chars_before lines h (Suc i))"
      "opn = (CHR ''{'' \<in> set (chars_before lines h (Suc i)))"
      by simp_all
    have res: "scan_lines lines (int i) (int (length lines)) (net_depth ?P) (CHR ''{'' \<in> set ?P) =
        scan_lines lines (int (Suc i)) (int (length lines))
          (net_depth (chars_before lines h (Suc i)))
          (CHR ''{'' \<in> set (chars_before lines h (Suc i)))"
      using i get sc st by (subst scan_lines.simps) (simp add: add.commute)
    have m: "m = length lines - Suc i" and hi: "h \<le> Suc i" and le: "Suc i \<le> length lines"
      using Suc.hyps(2) Suc.prems i by simp_all
    note IH = Suc.hyps(1) [OF m hi le]
    have first_eq: "?first i e \<longleftrightarrow> ?first (Suc i) e" for e
    proof
      assume f: "?first i e"
      with False have "e \<noteq> i" by blast
      with f show "?first (Suc i) e" by auto
    next
      assume f: "?first (Suc i) e"
      have "\<not> closes_on lines h e'" if "i \<le> e' \<and> e' < e" for e'
        using that f False by (cases "e' = i") auto
      with f show "?first i e" by auto
    qed
    have none_eq: "(\<forall>e. i \<le> e \<and> e < length lines \<longrightarrow> \<not> closes_on lines h e) \<longleftrightarrow>
        (\<forall>e. Suc i \<le> e \<and> e < length lines \<longrightarrow> \<not> closes_on lines h e)"
      using False by (metis Suc_leI le_neq_implies_less Suc_leD)
    show ?thesis
      unfolding res using IH first_eq none_eq by simp
  qed
qed


lemma chars_before_self [simp]: "chars_before lines h h = []"
  by (simp add: chars_before_def)

lemma find_end_spec:
  assumes "h \<le> length lines"
  shows "(find_end lines (int h) = Inr (Some j) \<longleftrightarrow>
          (\<exists>e. j = int e \<and> h \<le> e \<and> e < length lines \<and> closes_on lines h e \<and>
               (\<forall>e'. h \<le> e' \<and> e' < e \<longrightarrow> \<not> closes_on lines h e'))) \<and>
         (find_end lines (int h) = Inr None \<longleftrightarrow>
          (\<forall>e. h \<le> e \<and> e < length lines \<longrightarrow> \<not> closes_on lines h e)) \<and>
         find_end lines (int h) \<noteq> Inl err"
  using scan_lines_spec [OF order_refl assms, of j err]
  by (simp add: find_end_def)

lemma chars_before_take: "chars_before lines h e = concat (drop h (take e lines))"
  by (simp add: chars_before_def drop_take)

lemma chars_before_prefix:
  assumes "e' \<le> e" and "e \<le> length lines"
  shows "chars_before (take e lines @ X) h e' = chars_before lines h e'"
proof -
  from assms have "take e' (take e lines @ X) = take e' lines"
    by (simp add: min_def)
  then show ?thesis
    by (simp add: chars_before_take)
qed

lemma closes_on_prefix:
  assumes "e' < e" and "e \<le> length lines"
  shows "closes_on (take e lines @ X) h e' \<longleftrightarrow> closes_on lines h e'"
proof -
  from assms have "(take e lines @ X) ! e' = lines ! e'"
    by (simp add: nth_append)
  moreover from assms have "chars_before (take e lines @ X) h e' = chars_before lines h e'"
    by (intro chars_before_prefix) simp_all
  ultimately show ?thesis
    by (simp add: closes_on_def closing_at_def)
qed

lemma closing_at_cut:
  assumes "e < length lines" and "k < length (lines ! e)" and "closing_at lines h e k"
  shows "closing_at (take e lines @ (take (Suc k) (lines ! e) @ s) # rest) h e k"
proof -
  let ?lines' = "take e lines @ (take (Suc k) (lines ! e) @ s) # rest"
  from assms(1) have line: "?lines' ! e = take (Suc k) (lines ! e) @ s"
    by (simp add: nth_append)
  from assms(1) have before: "chars_before ?lines' h e = chars_before lines h e"
    by (intro chars_before_prefix) simp_all
  from assms(2) have cut: "(take (Suc k) (lines ! e) @ s) ! k = lines ! e ! k"
    "take k (take (Suc k) (lines ! e) @ s) = take k (lines ! e)"
    "take (Suc k) (take (Suc k) (lines ! e) @ s) = take (Suc k) (lines ! e)"
    by (simp_all add: nth_append min_def)
  from assms(3) show ?thesis
    unfolding closing_at_def line before cut .
qed

text \<open>
  Claim C2 (brace matcher). From the header line \<open>h\<close>, with depth 0 and \<open>opened\<close> false
  at the start, the matcher returns line \<open>e\<close> exactly when \<open>e\<close> is the first line from
  \<open>h\<close> on that holds a \<open>}\<close> before which a \<open>{\<close> has been read and after which the
  number of \<open>{\<close> read equals the number of \<open>}\<close> read; it returns nothing exactly when no
  line does. Every brace counts, wherever it stands in the line. The scan stops at that
  \<open>}\<close>: whatever follows it on the line and on the later lines can be replaced without
  changing the result.
\<close>

theorem brace_matcher_semantics:
  assumes "h < length lines"
  shows
    "(find_end lines (int h) = Inr (Some (int e)) \<longleftrightarrow>
        h \<le> e \<and> e < length lines \<and> closes_on lines h e \<and>
        (\<forall>e'. h \<le> e' \<and> e' < e \<longrightarrow> \<not> closes_on lines h e')) \<and>
     (find_end lines (int h) = Inr None \<longleftrightarrow>
        (\<forall>e. h \<le> e \<and> e < length lines \<longrightarrow> \<not> closes_on lines h e)) \<and>
     (find_end lines (int h) = Inr (Some (int e)) \<and> k < length (lines ! e) \<and>
      closing_at lines h e k \<longrightarrow>
        find_end (take e lines @ (take (Suc k) (lines ! e) @ s) # rest) (int h) = Inr (Some (int e)))"
proof -
  from assms have hl: "h \<le> length lines" by simp
  have some: "find_end lines (int h) = Inr (Some (int e)) \<longleftrightarrow>
        h \<le> e \<and> e < length lines \<and> closes_on lines h e \<and>
        (\<forall>e'. h \<le> e' \<and> e' < e \<longrightarrow> \<not> closes_on lines h e')"
    using find_end_spec [OF hl, of "int e" IndexError] by auto
  have none: "find_end lines (int h) = Inr None \<longleftrightarrow>
        (\<forall>e. h \<le> e \<and> e < length lines \<longrightarrow> \<not> closes_on lines h e)"
    using find_end_spec [OF hl, of "int e" IndexError] by blast
  have cut: "find_end (take e lines @ (take (Suc k) (lines ! e) @ s) # rest) (int h) = Inr (Some (int e))"
    if f: "find_end lines (int h) = Inr (Some (int e))" and k: "k < length (lines ! e)"
      and c: "closing_at lines h e k"
  proof -
    let ?lines' = "take e lines @ (take (Suc k) (lines ! e) @ s) # rest"
    from f some have e: "h \<le> e" "e < length lines"
      and first: "\<forall>e'. h \<le> e' \<and> e' < e \<longrightarrow> \<not> closes_on lines h e'"
      by simp_all
    from e have len: "length ?lines' = Suc (e + length rest)" and line: "?lines' ! e = take (Suc k) (lines ! e) @ s"
      by (simp_all add: nth_append)
    from k have "k < length (?lines' ! e)"
      unfolding line by simp
    with closing_at_cut [OF e(2) k c] have "closes_on ?lines' h e"
      unfolding closes_on_def by blast
    moreover have "\<not> closes_on ?lines' h e'" if "h \<le> e' \<and> e' < e" for e'
      using that first e closes_on_prefix [of e' e lines _ h] by simp
    moreover from e len have "h \<le> length ?lines'" "e < length ?lines'"
      by simp_all
    ultimately show ?thesis
      using find_end_spec [of h ?lines' "int e" IndexError] e by auto
  qed
  from some none cut show ?thesis
    by blast
qed

theorem brace_matcher_semantics_witness:
  "0 < length literal_file \<and>
   literal_file ! 1 ! 14 = CHR ''}'' \<and>
   closes_on literal_file 0 1 \<and>
   find_end literal_file (int 0) = Inr (Some (int 1)) \<and>
   find_end (take 1 literal_file @ (take (Suc 14) (literal_file ! 1) @ ''{{ }}'') # [''}'', ''}''])
     (int 0) = Inr (Some (int 1))"
proof -
  have h: "0 < length literal_file"
    by (simp add: literal_file_def)
  have c1: "closes_on literal_file 0 1"
    unfolding literal_file_def by code_simp
  have c0: "\<not> closes_on literal_file 0 0"
    unfolding literal_file_def by code_simp
  have k: "14 < length (literal_file ! 1)" and ch: "literal_file ! 1 ! 14 = CHR ''}''"
    by (simp_all add: literal_file_def)
  have at: "closing_at literal_file 0 1 14"
    unfolding literal_file_def by code_simp
  have first: "\<forall>e'. 0 \<le> e' \<and> e' < (1::nat) \<longrightarrow> \<not> closes_on literal_file 0 e'"
    using c0 by simp
  note sem = brace_matcher_semantics [OF h, of 1 14 "''{{ }}''" "[''}'', ''}'']"]
  from sem c1 first have f: "find_end literal_file (int 0) = Inr (Some (int 1))"
    by (simp add: literal_file_def)
  with sem k at have "find_end (take 1 literal_file @ (take (Suc 14) (literal_file ! 1) @ ''{{ }}'') # [''}'', ''}''])
     (int 0) = Inr (Some (int 1))"
    by blast
  with h ch c1 f show ?thesis
    by blast
qed

subsection \<open>The paths of the extractor\<close>

lemma split_dot_nonempty: "split_dot s \<noteq> []"
  by (induction s) (auto split: list.splits)

lemma simple_name_get: "py_get (split_dot class_name) (- 1) = Inr (last (split_dot class_name))"
proof -
  obtain seg segs where s: "split_dot class_name = seg # segs"
    using split_dot_nonempty [of class_name] by (cases "split_dot class_name") auto
  have "nat (int (length (seg # segs)) + - 1) = length segs"
    by simp
  then have "py_get (seg # segs) (- 1) = Inr ((seg # segs) ! length segs)"
    by (simp add: py_get_def)
  also have "(seg # segs) ! length segs = last (seg # segs)"
    by (simp add: last_conv_nth)
  finally show ?thesis
    by (simp add: s)
qed

lemma find_header_no_error:
  "1 \<le> start_line \<Longrightarrow> start_line \<le> int (length lines) \<Longrightarrow>
   find_header name lines (start_line - 1) \<noteq> Inl err"
  using find_header_spec [of start_line lines name 0 err] by blast

lemma find_header_range:
  assumes "1 \<le> start_line" and "start_line \<le> int (length lines)"
    and "find_header name lines (start_line - 1) = Inr (Some h)"
  shows "0 \<le> h \<and> h < int (length lines)"
  using find_header_spec [OF assms(1,2), of name h IndexError] assms(3) by auto

lemma find_end_range:
  assumes "h \<le> length lines" and "find_end lines (int h) = Inr (Some j)"
  shows "int h \<le> j \<and> j < int (length lines)"
  using find_end_spec [OF assms(1), of j IndexError] assms(2) by auto

lemma find_end_no_error: "h \<le> length lines \<Longrightarrow> find_end lines (int h) \<noteq> Inl err"
  using find_end_spec [of h lines 0 err] by blast

text \<open>The upper bound \<open>min n (lo + loc_limit)\<close> selects the same lines as \<open>lo + loc_limit\<close>.\<close>

lemma slice_bound_min: "slice_bound n (min (int n) x) = slice_bound n x"
  by (auto simp: slice_bound_def min_def)

lemma py_slice_min: "py_slice xs lo (min (int (length xs)) hi) = py_slice xs lo hi"
  by (simp add: py_slice_def slice_bound_min)


lemma py_slice_nat:
  "py_slice xs (int a) (int b) = take (min b (length xs) - min a (length xs)) (drop (min a (length xs)) xs)"
  by (simp add: py_slice_def slice_bound_def Let_def)

lemma py_slice_block:
  assumes "h \<le> e" and "e < length xs"
  shows "py_slice xs (int h) (int e + 1) = take (Suc e - h) (drop h xs)"
proof -
  have "int e + 1 = int (Suc e)" by simp
  with assms show ?thesis
    unfolding py_slice_nat \<open>int e + 1 = int (Suc e)\<close> by (simp add: min_def)
qed

lemma extract_state_B:
  assumes "1 \<le> start_line" and "start_line \<le> int (length lines)"
    and "find_header (last (split_dot class_name)) lines (start_line - 1) = Inr None"
  shows "extract_from_lines lines start_line class_name loc_limit =
           Inr (join_lines (py_slice lines (max 0 (start_line - 1 - 5))
                              (max 0 (start_line - 1 - 5) + loc_limit)))"
  using assms by (simp add: extract_from_lines_def simple_name_get py_slice_min Let_def)

lemma extract_state_C:
  assumes "1 \<le> start_line" and "start_line \<le> int (length lines)"
    and "find_header (last (split_dot class_name)) lines (start_line - 1) = Inr (Some (int h))"
    and "find_end lines (int h) = Inr None"
  shows "extract_from_lines lines start_line class_name loc_limit =
           Inr (join_lines (py_slice lines (int h) (int h + loc_limit)))"
  using assms by (simp add: extract_from_lines_def simple_name_get py_slice_min Let_def)

lemma extract_state_D:
  assumes "1 \<le> start_line" and "start_line \<le> int (length lines)"
    and "find_header (last (split_dot class_name)) lines (start_line - 1) = Inr (Some (int h))"
    and "find_end lines (int h) = Inr (Some (int e))"
  shows "extract_from_lines lines start_line class_name loc_limit =
           Inr (join_lines
                 (if int (length (take (Suc e - h) (drop h lines))) > loc_limit
                  then py_slice_to (take (Suc e - h) (drop h lines)) loc_limit
                  else take (Suc e - h) (drop h lines)))"
proof -
  from find_header_range [OF assms(1,2,3)] have h: "h < length lines" by simp
  with find_end_range [OF _ assms(4)] have e: "h \<le> e" "e < length lines" by simp_all
  have "extract_from_lines lines start_line class_name loc_limit =
      Inr (join_lines
            (if int (length (py_slice lines (int h) (int e + 1))) > loc_limit
             then py_slice_to (py_slice lines (int h) (int e + 1)) loc_limit
             else py_slice lines (int h) (int e + 1)))"
    using assms by (simp add: extract_from_lines_def simple_name_get Let_def)
  then show ?thesis
    unfolding py_slice_block [OF e] .
qed

lemma extract_cases:
  assumes "1 \<le> start_line" and "start_line \<le> int (length lines)"
  obtains
    (B) "find_header (last (split_dot class_name)) lines (start_line - 1) = Inr None"
  | (C) h where "find_header (last (split_dot class_name)) lines (start_line - 1) = Inr (Some (int h))"
      and "h < length lines" and "find_end lines (int h) = Inr None"
  | (D) h e where "find_header (last (split_dot class_name)) lines (start_line - 1) = Inr (Some (int h))"
      and "h \<le> e" and "e < length lines" and "find_end lines (int h) = Inr (Some (int e))"
proof -
  let ?sn = "last (split_dot class_name)"
  show thesis
  proof (cases "find_header ?sn lines (start_line - 1)")
    case (Inl err)
    with find_header_no_error [OF assms] show thesis by blast
  next
    case (Inr r)
    show thesis
    proof (cases r)
      case None
      with Inr B show thesis by simp
    next
      case (Some hi)
      with Inr have fh: "find_header ?sn lines (start_line - 1) = Inr (Some hi)" by simp
      define h where "h = nat hi"
      from find_header_range [OF assms fh] have h: "hi = int h" "h < length lines"
        unfolding h_def by linarith+
      then have hl: "h \<le> length lines" by simp
      show thesis
      proof (cases "find_end lines (int h)")
        case (Inl err)
        with find_end_no_error [OF hl] show thesis by blast
      next
        case (Inr r')
        show thesis
        proof (cases r')
          case None
          with Inr fh h C show thesis by simp
        next
          case (Some ei)
          with Inr have fe: "find_end lines (int h) = Inr (Some ei)" by simp
          define e where "e = nat ei"
          from find_end_range [OF hl fe] have "ei = int e" "h \<le> e" "e < length lines"
            unfolding e_def by linarith+
          with fe fh h D show thesis by simp
        qed
      qed
    qed
  qed
qed

lemma find_header_None:
  assumes "1 \<le> start_line" and "start_line \<le> int (length lines)"
    and "\<forall>l\<in>set lines. \<not> header_search name l"
  shows "find_header name lines (start_line - 1) = Inr None"
proof -
  have "\<not> header_search name (lines ! nat k)" if "0 \<le> k \<and> k < int (length lines)" for k
  proof -
    from that have "nat k < length lines" by linarith
    then have "lines ! nat k \<in> set lines" by (rule nth_mem)
    with assms(3) show ?thesis by blast
  qed
  then have all: "\<forall>k. 0 \<le> k \<and> k < int (length lines) \<longrightarrow> \<not> header_search name (lines ! nat k)"
    by blast
  note spec = find_header_spec [OF assms(1,2), of name 0 IndexError]
  show ?thesis
    by (rule iffD2 [OF spec [THEN conjunct2, THEN conjunct1] all])
qed

text \<open>
  Claim C6 (State B). When the reported line is within \<open>1..line_count\<close> and no line of
  the file matches the header pattern for the simple name (the last dot-separated segment
  of the type name), the extractor returns the newline-join of
  \<open>lines[max 0 (anchor - 5) : max 0 (anchor - 5) + loc_limit]\<close> with
  \<open>anchor = start_line - 1\<close>.
\<close>

theorem header_not_found_fallback:
  assumes "1 \<le> start_line" and "start_line \<le> int (length (splitlines text))"
    and "\<forall>l\<in>set (splitlines text). \<not> header_search (last (split_dot class_name)) l"
  shows "extract_class_block text start_line class_name loc_limit =
           Inr (join_lines (py_slice (splitlines text) (max 0 (start_line - 1 - 5))
                              (max 0 (start_line - 1 - 5) + loc_limit)))"
  unfolding extract_class_block_def
  by (rule extract_state_B [OF assms(1,2) find_header_None [OF assms]])

theorem header_not_found_fallback_witness:
  "(1::int) \<le> 8 \<and> 8 \<le> int (length (splitlines (join_lines plain_file))) \<and>
   list_all (\<lambda>l. \<not> header_search (last (split_dot ''pkg.Foo'')) l) (splitlines (join_lines plain_file)) \<and>
   extract_class_block (join_lines plain_file) 8 ''pkg.Foo'' 3 = Inr (join_lines [''c'', ''d'', ''e''])"
proof -
  have s: "splitlines (join_lines plain_file) = plain_file"
    unfolding plain_file_def by code_simp
  have h1: "(1::int) \<le> 8"
    by simp
  have h2: "8 \<le> int (length (splitlines (join_lines plain_file)))"
    unfolding s by (simp add: plain_file_def)
  have none: "list_all (\<lambda>l. \<not> header_search (last (split_dot ''pkg.Foo'')) l)
      (splitlines (join_lines plain_file))"
    unfolding s plain_file_def by code_simp
  then have h3: "\<forall>l\<in>set (splitlines (join_lines plain_file)).
      \<not> header_search (last (split_dot ''pkg.Foo'')) l"
    by (simp add: list_all_iff)
  have w: "py_slice plain_file (max 0 (8 - 1 - 5)) (max 0 (8 - 1 - 5) + 3) = [''c'', ''d'', ''e'']"
    by (simp add: plain_file_def py_slice_def slice_bound_def)
  from header_not_found_fallback [OF h1 h2 h3, of 3]
  have "extract_class_block (join_lines plain_file) 8 ''pkg.Foo'' 3 = Inr (join_lines [''c'', ''d'', ''e''])"
    unfolding s w .
  with h1 h2 none show ?thesis
    by blast
qed

text \<open>
  Claim C1 (State D). When the reported line is within \<open>1..line_count\<close>, the header
  locator finds the header line \<open>h\<close> and the brace matcher finds the closing line \<open>e\<close>,
  the extractor returns the newline-join of the lines \<open>h\<close> to \<open>e\<close> inclusive, cut to the
  first \<open>loc_limit\<close> lines (for a cap that is not negative).
\<close>

theorem exact_match_block:
  assumes "1 \<le> start_line" and "start_line \<le> int (length (splitlines text))"
    and "find_header (last (split_dot class_name)) (splitlines text) (start_line - 1) = Inr (Some (int h))"
    and "find_end (splitlines text) (int h) = Inr (Some (int e))"
    and "0 \<le> loc_limit"
  shows "extract_class_block text start_line class_name loc_limit =
           Inr (join_lines (take (nat loc_limit) (take (Suc e - h) (drop h (splitlines text)))))"
proof -
  let ?block = "take (Suc e - h) (drop h (splitlines text))"
  have cut: "(if int (length ?block) > loc_limit then py_slice_to ?block loc_limit else ?block) =
      take (nat loc_limit) ?block"
  proof (cases "int (length ?block) > loc_limit")
    case True
    with assms(5) show ?thesis
      by (simp only: py_slice_to_nonneg if_True)
  next
    case False
    then have "length ?block \<le> nat loc_limit" by linarith
    then have "take (nat loc_limit) ?block = ?block" by (rule take_all)
    with False show ?thesis by (simp only: if_False)
  qed
  from extract_state_D [OF assms(1-4), of loc_limit] show ?thesis
    unfolding extract_class_block_def cut .
qed

theorem exact_match_block_witness:
  "length foo_file = 20 \<and> foo_file ! 9 = ''class Foo {'' \<and> foo_file ! 17 = ''}'' \<and>
   (1::int) \<le> 12 \<and> 12 \<le> int (length (splitlines (join_lines foo_file))) \<and>
   find_header (last (split_dot ''Foo'')) (splitlines (join_lines foo_file)) (12 - 1) = Inr (Some (int 9)) \<and>
   find_end (splitlines (join_lines foo_file)) (int 9) = Inr (Some (int 17)) \<and>
   extract_class_block (join_lines foo_file) 12 ''Foo'' 400 =
     Inr (join_lines [''class Foo {'', ''  int a;'', ''  void f() {'', ''    a = 1;'', ''  }'',
            ''  int b;'', ''  int c;'', ''  int d;'', ''}''])"
proof -
  have s: "splitlines (join_lines foo_file) = foo_file"
    unfolding foo_file_def by code_simp
  have shape: "length foo_file = 20" "foo_file ! 9 = ''class Foo {''" "foo_file ! 17 = ''}''"
    by (simp_all add: foo_file_def nth_append)
  have h1: "(1::int) \<le> 12" and h2: "12 \<le> int (length (splitlines (join_lines foo_file)))"
    by (simp_all add: s shape)
  have h3: "find_header (last (split_dot ''Foo'')) (splitlines (join_lines foo_file)) (12 - 1) =
      Inr (Some (int 9))"
    unfolding s foo_file_def by code_simp
  have h4: "find_end (splitlines (join_lines foo_file)) (int 9) = Inr (Some (int 17))"
    unfolding s foo_file_def by code_simp
  have h5: "(0::int) \<le> 400"
    by simp
  have block: "take (nat 400) (take (Suc 17 - 9) (drop 9 foo_file)) =
      [''class Foo {'', ''  int a;'', ''  void f() {'', ''    a = 1;'', ''  }'',
       ''  int b;'', ''  int c;'', ''  int d;'', ''}'']"
    by (simp add: foo_file_def)
  from exact_match_block [OF h1 h2 h3 h4 h5]
  have "extract_class_block (join_lines foo_file) 12 ''Foo'' 400 =
     Inr (join_lines [''class Foo {'', ''  int a;'', ''  void f() {'', ''    a = 1;'', ''  }'',
            ''  int b;'', ''  int c;'', ''  int d;'', ''}''])"
    unfolding s block .
  with shape h1 h2 h3 h4 show ?thesis
    by blast
qed

lemma extract_state_A:
  assumes "start_line < 1 \<or> int (length lines) < start_line"
  shows "extract_from_lines lines start_line class_name loc_limit =
           Inr (join_lines (py_slice_to lines loc_limit))"
  using assms by (auto simp: extract_from_lines_def)

lemma extract_from_lines_total:
  "\<exists>s. extract_from_lines lines start_line class_name loc_limit = Inr s"
proof (cases "start_line < 1 \<or> int (length lines) < start_line")
  case True
  from extract_state_A [OF True] show ?thesis by blast
next
  case False
  then have r: "1 \<le> start_line" "start_line \<le> int (length lines)"
    by simp_all
  from r show ?thesis
  proof (cases rule: extract_cases [where class_name = class_name])
    case B
    from extract_state_B [OF r B] show ?thesis by blast
  next
    case (C h)
    from extract_state_C [OF r C(1,3)] show ?thesis by blast
  next
    case (D h e)
    from extract_state_D [OF r D(1,4)] show ?thesis by blast
  qed
qed

text \<open>
  Claim C9 (totality). For every text, reported line, type name and cap the extractor
  returns a string and raises nothing. An out-of-range line, a missing header and an
  unterminated brace nesting each give a window chosen by position:
  \<open>lines[0:loc_limit]\<close>, \<open>lines[lo:lo + loc_limit]\<close> with \<open>lo = max 0 (anchor - 5)\<close>, and
  \<open>lines[h:h + loc_limit]\<close> from the header line \<open>h\<close>.
\<close>

theorem extractor_total:
  "(\<exists>s. extract_class_block text start_line class_name loc_limit = Inr s) \<and>
   (start_line < 1 \<or> int (length (splitlines text)) < start_line \<longrightarrow>
      extract_class_block text start_line class_name loc_limit =
        Inr (join_lines (py_slice (splitlines text) 0 loc_limit))) \<and>
   (1 \<le> start_line \<and> start_line \<le> int (length (splitlines text)) \<and>
    find_header (last (split_dot class_name)) (splitlines text) (start_line - 1) = Inr None \<longrightarrow>
      extract_class_block text start_line class_name loc_limit =
        Inr (join_lines (py_slice (splitlines text) (max 0 (start_line - 1 - 5))
                           (max 0 (start_line - 1 - 5) + loc_limit)))) \<and>
   (1 \<le> start_line \<and> start_line \<le> int (length (splitlines text)) \<and>
    find_header (last (split_dot class_name)) (splitlines text) (start_line - 1) = Inr (Some (int h)) \<and>
    find_end (splitlines text) (int h) = Inr None \<longrightarrow>
      extract_class_block text start_line class_name loc_limit =
        Inr (join_lines (py_slice (splitlines text) (int h) (int h + loc_limit))))"
proof -
  let ?lines = "splitlines text"
  let ?r = "extract_from_lines ?lines start_line class_name loc_limit"
  have total: "\<exists>s. ?r = Inr s"
    by (rule extract_from_lines_total)
  have a: "?r = Inr (join_lines (py_slice ?lines 0 loc_limit))"
    if "start_line < 1 \<or> int (length ?lines) < start_line"
    using extract_state_A [OF that] by (simp add: py_slice_zero)
  have b: "?r = Inr (join_lines (py_slice ?lines (max 0 (start_line - 1 - 5))
                           (max 0 (start_line - 1 - 5) + loc_limit)))"
    if "1 \<le> start_line \<and> start_line \<le> int (length ?lines) \<and>
        find_header (last (split_dot class_name)) ?lines (start_line - 1) = Inr None"
    using that by (intro extract_state_B) simp_all
  have c: "?r = Inr (join_lines (py_slice ?lines (int h) (int h + loc_limit)))"
    if "1 \<le> start_line \<and> start_line \<le> int (length ?lines) \<and>
        find_header (last (split_dot class_name)) ?lines (start_line - 1) = Inr (Some (int h)) \<and>
        find_end ?lines (int h) = Inr None"
    using that by (intro extract_state_C) simp_all
  from total a b c show ?thesis
    unfolding extract_class_block_def by blast
qed

theorem extractor_total_witness:
  "(1::int) \<le> 2 \<and> 2 \<le> int (length (splitlines (join_lines open_file))) \<and>
   find_header (last (split_dot ''Foo'')) (splitlines (join_lines open_file)) (2 - 1) = Inr (Some (int 0)) \<and>
   find_end (splitlines (join_lines open_file)) (int 0) = Inr None \<and>
   extract_class_block (join_lines open_file) 2 ''Foo'' 3 =
     Inr (join_lines [''class Foo {'', ''  int x;'', ''  void f() {''])"
proof -
  have s: "splitlines (join_lines open_file) = open_file"
    unfolding open_file_def by code_simp
  have h1: "(1::int) \<le> 2"
    by simp
  have h2: "2 \<le> int (length (splitlines (join_lines open_file)))"
    unfolding s by (simp add: open_file_def)
  have h3: "find_header (last (split_dot ''Foo'')) (splitlines (join_lines open_file)) (2 - 1) =
      Inr (Some (int 0))"
    unfolding s open_file_def by code_simp
  have h4: "find_end (splitlines (join_lines open_file)) (int 0) = Inr None"
    unfolding s open_file_def by code_simp
  have w: "py_slice open_file (int 0) (int 0 + 3) = [''class Foo {'', ''  int x;'', ''  void f() {'']"
    by (simp add: open_file_def py_slice_def slice_bound_def)
  from extractor_total [of "join_lines open_file" 2 "''Foo''" 3 0] h1 h2 h3 h4
  have "extract_class_block (join_lines open_file) 2 ''Foo'' 3 =
      Inr (join_lines (py_slice (splitlines (join_lines open_file)) (int 0) (int 0 + 3)))"
    by blast
  then have "extract_class_block (join_lines open_file) 2 ''Foo'' 3 =
     Inr (join_lines [''class Foo {'', ''  int x;'', ''  void f() {''])"
    unfolding s w .
  with h1 h2 h3 h4 show ?thesis
    by blast
qed

lemma slice_bound_le: "slice_bound n x \<le> n"
  by (auto simp: slice_bound_def max_def)

lemma py_slice_contiguous:
  "\<exists>i j. i \<le> j \<and> j \<le> length xs \<and> py_slice xs a b = take (j - i) (drop i xs)"
proof -
  let ?i = "slice_bound (length xs) a"
  let ?j = "max ?i (slice_bound (length xs) b)"
  have "?i \<le> ?j" "?j \<le> length xs"
    by (simp_all add: slice_bound_le)
  moreover have "py_slice xs a b = take (?j - ?i) (drop ?i xs)"
    by (simp add: py_slice_def Let_def max_def)
  ultimately show ?thesis by blast
qed

lemma py_slice_to_contiguous:
  "\<exists>i j. i \<le> j \<and> j \<le> length xs \<and> py_slice_to xs b = take (j - i) (drop i xs)"
proof -
  have "py_slice_to xs b = take (slice_bound (length xs) b - 0) (drop 0 xs)"
    by (simp add: py_slice_to_def)
  moreover have "0 \<le> slice_bound (length xs) b" "slice_bound (length xs) b \<le> length xs"
    by (simp_all add: slice_bound_le)
  ultimately show ?thesis by blast
qed

lemma block_cut_contiguous:
  assumes "h \<le> e" and "e < length xs"
  shows "\<exists>i j. i \<le> j \<and> j \<le> length xs \<and>
     (if int (length (take (Suc e - h) (drop h xs))) > loc_limit
      then py_slice_to (take (Suc e - h) (drop h xs)) loc_limit
      else take (Suc e - h) (drop h xs)) = take (j - i) (drop i xs)"
proof -
  let ?block = "take (Suc e - h) (drop h xs)"
  obtain m where m: "(if int (length ?block) > loc_limit then py_slice_to ?block loc_limit else ?block) = take m ?block"
  proof (cases "int (length ?block) > loc_limit")
    case True
    then have "(if int (length ?block) > loc_limit then py_slice_to ?block loc_limit else ?block) =
        take (slice_bound (length ?block) loc_limit) ?block"
      by (simp only: if_True py_slice_to_def)
    then show ?thesis by (rule that)
  next
    case False
    have "take (length ?block) ?block = ?block"
      by (rule take_all) (rule order_refl)
    with False have "(if int (length ?block) > loc_limit then py_slice_to ?block loc_limit else ?block) =
        take (length ?block) ?block"
      by (simp only: if_False)
    then show ?thesis by (rule that)
  qed
  let ?k = "min m (Suc e - h)"
  have "take m ?block = take (h + ?k - h) (drop h xs)"
    by (simp add: min_def)
  moreover from assms have "h \<le> h + ?k" "h + ?k \<le> length xs"
    by simp_all
  ultimately show ?thesis
    unfolding m by blast
qed

text \<open>
  Claim C10 (contiguous slice). On every path the returned string is the newline-join
  of a contiguous slice \<open>lines[i:j]\<close>, \<open>0 \<le> i \<le> j \<le> line_count\<close>, of the lines of the
  text: the lines are taken as they are, in their order, none skipped within the range.
\<close>

theorem contiguous_slice:
  "\<exists>i j. i \<le> j \<and> j \<le> length (splitlines text) \<and>
     extract_class_block text start_line class_name loc_limit =
       Inr (join_lines (take (j - i) (drop i (splitlines text))))"
proof -
  let ?lines = "splitlines text"
  let ?r = "extract_from_lines ?lines start_line class_name loc_limit"
  have "\<exists>i j. i \<le> j \<and> j \<le> length ?lines \<and> ?r = Inr (join_lines (take (j - i) (drop i ?lines)))"
  proof (cases "start_line < 1 \<or> int (length ?lines) < start_line")
    case True
    from py_slice_to_contiguous [of ?lines loc_limit] obtain i j where
      "i \<le> j" "j \<le> length ?lines" "py_slice_to ?lines loc_limit = take (j - i) (drop i ?lines)"
      by blast
    then show ?thesis
      unfolding extract_state_A [OF True] by (intro exI [of _ i] exI [of _ j]) simp
  next
    case False
    then have r: "1 \<le> start_line" "start_line \<le> int (length ?lines)"
      by simp_all
    from r show ?thesis
    proof (cases rule: extract_cases [where class_name = class_name])
      case B
      from py_slice_contiguous [of ?lines] obtain i j where
        "i \<le> j" "j \<le> length ?lines"
        "py_slice ?lines (max 0 (start_line - 1 - 5)) (max 0 (start_line - 1 - 5) + loc_limit) =
           take (j - i) (drop i ?lines)"
        by blast
      then show ?thesis
        unfolding extract_state_B [OF r B] by (intro exI [of _ i] exI [of _ j]) simp
    next
      case (C h)
      from py_slice_contiguous [of ?lines] obtain i j where
        "i \<le> j" "j \<le> length ?lines"
        "py_slice ?lines (int h) (int h + loc_limit) = take (j - i) (drop i ?lines)"
        by blast
      then show ?thesis
        unfolding extract_state_C [OF r C(1,3)] by (intro exI [of _ i] exI [of _ j]) simp
    next
      case (D h e)
      from block_cut_contiguous [OF D(2,3), of loc_limit] obtain i j where
        "i \<le> j" "j \<le> length ?lines"
        "(if int (length (take (Suc e - h) (drop h ?lines))) > loc_limit
          then py_slice_to (take (Suc e - h) (drop h ?lines)) loc_limit
          else take (Suc e - h) (drop h ?lines)) = take (j - i) (drop i ?lines)"
        by blast
      then show ?thesis
        unfolding extract_state_D [OF r D(1,4)] by (intro exI [of _ i] exI [of _ j]) simp
    qed
  qed
  then show ?thesis
    unfolding extract_class_block_def .
qed

theorem contiguous_slice_witness:
  "\<exists>i j. i \<le> j \<and> j \<le> length (splitlines (join_lines open_file)) \<and>
     extract_class_block (join_lines open_file) 2 ''Foo'' 3 =
       Inr (join_lines (take (j - i) (drop i (splitlines (join_lines open_file)))))"
  by (rule contiguous_slice)

subsection \<open>Bounds of the excerpt\<close>

lemma splitlines_empty_iff: "splitlines t = [] \<longleftrightarrow> t = []"
  by (cases t) (auto split: list.splits)

lemma splitlines_no_break_all:
  "\<forall>l\<in>set (splitlines t). \<forall>c\<in>set l. \<not> is_line_break c"
proof (induction t rule: splitlines.induct)
  case 1
  then show ?case by simp
next
  case (2 d ds)
  show ?case
  proof (cases "is_line_break d")
    case True
    with "2.IH"(1) show ?thesis by simp
  next
    case False
    with "2.IH"(2) have IH: "\<forall>l\<in>set (splitlines ds). \<forall>c\<in>set l. \<not> is_line_break c"
      by simp
    show ?thesis
    proof (cases "splitlines ds")
      case Nil
      with False show ?thesis by simp
    next
      case (Cons m ms)
      with IH have "\<forall>c\<in>set m. \<not> is_line_break c" "\<forall>l\<in>set ms. \<forall>c\<in>set l. \<not> is_line_break c"
        by simp_all
      with False Cons show ?thesis by simp
    qed
  qed
qed

lemma splitlines_one_line:
  "\<forall>c\<in>set l. \<not> is_line_break c \<Longrightarrow> splitlines l = (if l = [] then [] else [l])"
  by (induction l) auto

lemma splitlines_first_line:
  "\<forall>c\<in>set l. \<not> is_line_break c \<Longrightarrow> splitlines (l @ CHR 0x0A # rest) = l # splitlines rest"
  by (induction l) (auto simp: skip_lf_def is_line_break_def split: list.splits)

lemma length_splitlines_join:
  "\<forall>l\<in>set ls. \<forall>c\<in>set l. \<not> is_line_break c \<Longrightarrow>
   length (splitlines (join_lines ls)) \<le> length ls"
proof (induction ls rule: join_lines.induct)
  case 1
  then show ?case by simp
next
  case (2 l)
  then show ?case by (simp add: splitlines_one_line)
next
  case (3 l m ls)
  then have "splitlines (join_lines (l # m # ls)) = l # splitlines (join_lines (m # ls))"
    by (simp add: splitlines_first_line)
  with 3 show ?case by simp
qed

lemma join_lines_empty_iff: "join_lines ls = [] \<longleftrightarrow> ls = [] \<or> ls = [[]]"
  by (induction ls rule: join_lines.induct) auto

lemma block_cut_nonneg:
  assumes "0 \<le> loc_limit"
  shows "(if int (length block) > loc_limit then py_slice_to block loc_limit else block) =
      take (nat loc_limit) block"
proof (cases "int (length block) > loc_limit")
  case True
  with assms show ?thesis
    by (simp only: py_slice_to_nonneg if_True)
next
  case False
  then have "length block \<le> nat loc_limit" by linarith
  then have "take (nat loc_limit) block = block" by (rule take_all)
  with False show ?thesis by (simp only: if_False)
qed

lemma window_bounds:
  assumes "a < length xs" and "1 \<le> loc_limit"
  shows "\<exists>i j. i < j \<and> j \<le> length xs \<and> j - i \<le> nat loc_limit \<and>
     py_slice xs (int a) (int a + loc_limit) = take (j - i) (drop i xs)"
proof -
  let ?j = "min (a + nat loc_limit) (length xs)"
  from assms(2) have eq: "int a + loc_limit = int (a + nat loc_limit)"
    by simp
  have "py_slice xs (int a) (int a + loc_limit) = take (?j - a) (drop a xs)"
    unfolding eq py_slice_nat using assms(1) by (simp add: min_def)
  moreover from assms have "a < ?j" "?j \<le> length xs" "?j - a \<le> nat loc_limit"
    by (auto simp: min_def)
  ultimately show ?thesis by blast
qed

lemma extract_slice_bounds:
  assumes "1 \<le> loc_limit"
  shows "\<exists>i j. i \<le> j \<and> j \<le> length lines \<and> j - i \<le> nat loc_limit \<and>
     (lines \<noteq> [] \<longrightarrow> i < j) \<and>
     extract_from_lines lines start_line class_name loc_limit =
       Inr (join_lines (take (j - i) (drop i lines)))"
proof (cases "start_line < 1 \<or> int (length lines) < start_line")
  case True
  let ?j = "min (nat loc_limit) (length lines)"
  from assms have "py_slice_to lines loc_limit = take (?j - 0) (drop 0 lines)"
    by (simp add: py_slice_to_nonneg min_def)
  moreover from assms have "0 \<le> ?j" "?j \<le> length lines" "?j - 0 \<le> nat loc_limit"
    "lines \<noteq> [] \<longrightarrow> 0 < ?j"
    by (simp_all add: min_def)
  ultimately show ?thesis
    unfolding extract_state_A [OF True] by (intro exI [of _ 0] exI [of _ ?j]) simp
next
  case False
  then have r: "1 \<le> start_line" "start_line \<le> int (length lines)"
    by simp_all
  from r show ?thesis
  proof (cases rule: extract_cases [where class_name = class_name])
    case B
    define a where "a = nat (max 0 (start_line - 1 - 5))"
    from r have a: "a < length lines" "max 0 (start_line - 1 - 5) = int a"
      unfolding a_def by linarith+
    from window_bounds [OF a(1) assms] obtain i j where
      "i < j" "j \<le> length lines" "j - i \<le> nat loc_limit"
      "py_slice lines (int a) (int a + loc_limit) = take (j - i) (drop i lines)"
      by blast
    then show ?thesis
      unfolding extract_state_B [OF r B] a(2) by (intro exI [of _ i] exI [of _ j]) simp
  next
    case (C h)
    from window_bounds [OF C(2) assms] obtain i j where
      "i < j" "j \<le> length lines" "j - i \<le> nat loc_limit"
      "py_slice lines (int h) (int h + loc_limit) = take (j - i) (drop i lines)"
      by blast
    then show ?thesis
      unfolding extract_state_C [OF r C(1,3)] by (intro exI [of _ i] exI [of _ j]) simp
  next
    case (D h e)
    let ?k = "min (nat loc_limit) (Suc e - h)"
    from assms have nn: "0 \<le> loc_limit" by simp
    have "take (nat loc_limit) (take (Suc e - h) (drop h lines)) = take (h + ?k - h) (drop h lines)"
      by (simp add: min_def)
    moreover from D(2,3) assms have "h < h + ?k" "h + ?k \<le> length lines" "h + ?k - h \<le> nat loc_limit"
      by (auto simp: min_def)
    ultimately show ?thesis
      unfolding extract_state_D [OF r D(1,4)] block_cut_nonneg [OF nn]
      by (intro exI [of _ h] exI [of _ "h + ?k"]) simp
  qed
qed

text \<open>
  Claim C7 (bounds), as the code has it. For a cap of at least 1 the excerpt is the
  newline-join of \<open>k\<close> consecutive lines of the file with \<open>k \<le> loc_limit\<close>, and
  \<open>k \<ge> 1\<close> whenever the text is not empty; split into lines again it has at most
  \<open>loc_limit\<close> lines. The string itself is empty exactly when no line is selected or the
  selection is one empty line, which a text that is not empty allows.
\<close>

theorem bounded_excerpt:
  assumes "1 \<le> loc_limit"
  shows "\<exists>s i j. extract_class_block text start_line class_name loc_limit = Inr s \<and>
     i \<le> j \<and> j \<le> length (splitlines text) \<and>
     s = join_lines (take (j - i) (drop i (splitlines text))) \<and>
     j - i \<le> nat loc_limit \<and>
     (text \<noteq> [] \<longrightarrow> 1 \<le> j - i) \<and>
     length (splitlines s) \<le> nat loc_limit \<and>
     (s = [] \<longleftrightarrow> j - i = 0 \<or> take (j - i) (drop i (splitlines text)) = [[]])"
proof -
  let ?lines = "splitlines text"
  from extract_slice_bounds [OF assms, of ?lines start_line class_name] obtain i j where
    ij: "i \<le> j" "j \<le> length ?lines" "j - i \<le> nat loc_limit" "?lines \<noteq> [] \<longrightarrow> i < j"
    and r: "extract_from_lines ?lines start_line class_name loc_limit =
       Inr (join_lines (take (j - i) (drop i ?lines)))"
    by blast
  let ?ls = "take (j - i) (drop i ?lines)"
  have len: "length ?ls = j - i"
    using ij(1,2) by simp
  have "set ?ls \<subseteq> set ?lines"
    by (meson set_take_subset set_drop_subset subset_trans)
  then have "\<forall>l\<in>set ?ls. \<forall>c\<in>set l. \<not> is_line_break c"
    using splitlines_no_break_all [of "text"] by blast
  then have "length (splitlines (join_lines ?ls)) \<le> length ?ls"
    by (rule length_splitlines_join)
  with len ij(3) have count: "length (splitlines (join_lines ?ls)) \<le> nat loc_limit"
    by simp
  have nonempty: "text \<noteq> [] \<longrightarrow> 1 \<le> j - i"
    using ij(4) by (auto simp: splitlines_empty_iff)
  have "?ls = [] \<longleftrightarrow> j - i = 0"
    using len by (metis length_0_conv)
  then have empty: "join_lines ?ls = [] \<longleftrightarrow> j - i = 0 \<or> ?ls = [[]]"
    unfolding join_lines_empty_iff by simp
  from r ij(1,2,3) nonempty count empty show ?thesis
    unfolding extract_class_block_def by blast
qed

theorem bounded_excerpt_witness:
  "(1::int) \<le> 2 \<and>
   extract_class_block (join_lines [''class Foo {'', ''  int x;'', ''}'', ''// end'']) 1 ''Foo'' 2 =
     Inr (join_lines [''class Foo {'', ''  int x;'']) \<and>
   length (splitlines (join_lines [''class Foo {'', ''  int x;''])) \<le> nat 2 \<and>
   (\<exists>s i j. extract_class_block (join_lines [''class Foo {'', ''  int x;'', ''}'', ''// end'']) 1 ''Foo'' 2 = Inr s \<and>
      i \<le> j \<and> j - i \<le> nat 2 \<and> 1 \<le> j - i \<and> length (splitlines s) \<le> nat 2)"
proof -
  let ?t = "join_lines [''class Foo {'', ''  int x;'', ''}'', ''// end'']"
  have h: "(1::int) \<le> 2"
    by simp
  have ne: "?t \<noteq> []"
    by simp
  have v: "extract_class_block ?t 1 ''Foo'' 2 = Inr (join_lines [''class Foo {'', ''  int x;''])"
    by code_simp
  have c: "length (splitlines (join_lines [''class Foo {'', ''  int x;''])) \<le> nat 2"
    by code_simp
  from bounded_excerpt [OF h, of ?t 1 "''Foo''"] ne
  have "\<exists>s i j. extract_class_block ?t 1 ''Foo'' 2 = Inr s \<and>
      i \<le> j \<and> j - i \<le> nat 2 \<and> 1 \<le> j - i \<and> length (splitlines s) \<le> nat 2"
    by blast
  with h v c show ?thesis
    by blast
qed

text \<open>
  The excerpt of a text that is not empty can be the empty string: a file that starts
  with an empty line, cut to one line, and the text that is one line terminator.
\<close>

theorem bounded_excerpt_counterexample:
  "(1::int) \<le> 1 \<and> CHR 0x0A # ''class A {}'' \<noteq> [] \<and>
   extract_class_block (CHR 0x0A # ''class A {}'') 99 ''A'' 1 = Inr [] \<and>
   (1::int) \<le> 400 \<and> [CHR 0x0A] \<noteq> [] \<and>
   extract_class_block [CHR 0x0A] 1 ''Foo'' 400 = Inr [] \<and>
   length (splitlines []) = 0"
proof -
  have a: "extract_class_block (CHR 0x0A # ''class A {}'') 99 ''A'' 1 = Inr []"
    by code_simp
  have b: "extract_class_block [CHR 0x0A] 1 ''Foo'' 400 = Inr []"
    by code_simp
  from a b show ?thesis by simp
qed

subsection \<open>The emitted record\<close>

text \<open>
  Claim C8 (strategy tag), as the code has it. Every row that reaches the extractor
  gives an object, and its \<open>excerpt_strategy\<close> is the constant
  \<open>line_based_class_block\<close> whatever path produced the excerpt; \<open>code_excerpt\<close> is the
  extractor's result.
\<close>

theorem strategy_tag_constant:
  "(\<exists>obj. build_case r start_line java_path code loc_limit = Inr obj) \<and>
   (\<forall>obj. build_case r start_line java_path code loc_limit = Inr obj \<longrightarrow>
      excerpt_strategy obj = ''line_based_class_block'' \<and>
      extract_class_block code start_line (row_class_name r) loc_limit = Inr (code_excerpt obj))"
proof -
  obtain s where s: "extract_class_block code start_line (row_class_name r) loc_limit = Inr s"
    unfolding extract_class_block_def using extract_from_lines_total by blast
  then show ?thesis
    by (auto simp: build_case_def)
qed

theorem strategy_tag_constant_witness:
  "build_case foo_row 12 ''app/Foo.java'' (join_lines foo_file) 400 =
     Inr \<lparr>case_id = ''k9_0001'', project = ''k9'', file_path = ''app/Foo.java'', package = ''app'',
          obj_class_name = ''Foo'', smell_type = ''Insufficient Modularization'',
          detector_reason = ''large class'', metrics = (),
          code_excerpt = join_lines (take 9 (drop 9 foo_file)),
          excerpt_strategy = ''line_based_class_block''\<rparr>"
proof -
  have x: "extract_class_block (join_lines foo_file) 12 ''Foo'' 400 =
      Inr (join_lines (take 9 (drop 9 foo_file)))"
    unfolding foo_file_def by code_simp
  from strategy_tag_constant [of foo_row 12 "''app/Foo.java''" "join_lines foo_file" 400]
  obtain obj where obj: "build_case foo_row 12 ''app/Foo.java'' (join_lines foo_file) 400 = Inr obj"
    "excerpt_strategy obj = ''line_based_class_block''"
    by blast
  from obj(1) x show ?thesis
    by (simp add: build_case_def foo_row_def)
qed

text \<open>
  Two rows for the same file, one with a line out of range (State A) and one with an
  exact match (State D), carry the same tag.
\<close>

theorem strategy_tag_constant_counterexample:
  "path_of (join_lines foo_file) 9999 (row_class_name foo_row) = Inr OutOfRange \<and>
   path_of (join_lines foo_file) 12 (row_class_name foo_row) = Inr ExactMatch \<and>
   map_sum id excerpt_strategy (build_case foo_row 9999 ''app/Foo.java'' (join_lines foo_file) 400) =
     Inr ''line_based_class_block'' \<and>
   map_sum id excerpt_strategy (build_case foo_row 12 ''app/Foo.java'' (join_lines foo_file) 400) =
     Inr ''line_based_class_block''"
proof -
  have p1: "path_of (join_lines foo_file) 9999 (row_class_name foo_row) = Inr OutOfRange"
    unfolding foo_file_def foo_row_def by code_simp
  have p2: "path_of (join_lines foo_file) 12 (row_class_name foo_row) = Inr ExactMatch"
    unfolding foo_file_def foo_row_def by code_simp
  have t: "map_sum id excerpt_strategy (build_case r sl jp code lim) = Inr ''line_based_class_block''"
    for r :: "unit smell_row" and sl jp code lim
  proof -
    obtain s where "extract_class_block code sl (row_class_name r) lim = Inr s"
      unfolding extract_class_block_def using extract_from_lines_total by blast
    then show ?thesis
      by (simp add: build_case_def)
  qed
  from p1 p2 t show ?thesis
    by blast
qed

subsection \<open>The header pattern\<close>

lemma strip_prefix_Some: "strip_prefix p s = Some r \<longleftrightarrow> s = p @ r"
  by (induction p s rule: strip_prefix.induct) auto

lemma strip_prefix_append [simp]: "strip_prefix p (p @ r) = Some r"
  by (simp add: strip_prefix_Some)


















end
